theory Spec2Isabelle
  imports Main
begin

section \<open>Data model of \<^verbatim>\<open>App.tsx\<close>\<close>

text \<open>
  The \<^verbatim>\<open>UserData\<close> object type. The field \<^verbatim>\<open>id\<close> is written \<open>id'\<close>, since
  \<open>id\<close> is the identity function of HOL. Identifiers are the integer values of a
  JavaScript \<^verbatim>\<open>number\<close> (the application only ever uses 1 and 2).
\<close>

record UserData =
  id' :: int
  name :: string
  email :: string

text \<open>
  Rendering of an integer inside a template literal (\<^verbatim>\<open>`${userId}`\<close>): the plain
  decimal expansion, with a leading minus sign for negative values.
\<close>

definition digit_char :: "nat \<Rightarrow> char" where
  "digit_char d = ''0123456789'' ! d"

fun show_nat :: "nat \<Rightarrow> string" where
  "show_nat n = (if n < 10 then [digit_char n] else show_nat (n div 10) @ [digit_char (n mod 10)])"

declare show_nat.simps [simp del]

definition show_int :: "int \<Rightarrow> string" where
  "show_int i = (if i < 0 then CHR ''-'' # show_nat (nat (- i)) else show_nat (nat i))"

definition show_bool :: "bool \<Rightarrow> string" where
  "show_bool b = (if b then ''true'' else ''false'')"

text \<open>
  The console is the trace sink. \<open>None\<close> is a run without a sink, where
  \<^verbatim>\<open>console.log\<close> does nothing; \<open>Some ls\<close> holds the lines logged so far.
\<close>

type_synonym console = "string list option"

definition console_log :: "string \<Rightarrow> console \<Rightarrow> console" where
  "console_log line c = map_option (\<lambda>ls. ls @ [line]) c"

text \<open>The two prefixes, with their ANSI colour escapes (\<^verbatim>\<open>\x1b\<close> is the byte 27).\<close>

definition red :: string where
  "red = CHR 0x1B # ''[31m[WITHOUT CLEANUP]'' @ CHR 0x1B # ''[0m''"

definition green :: string where
  "green = CHR 0x1B # ''[32m[WITH CLEANUP]'' @ CHR 0x1B # ''[0m''"

section \<open>The simulated remote source\<close>

text \<open>
  What a call of \<^verbatim>\<open>fetchUserData\<close> leaves behind: a timer registered with
  \<^verbatim>\<open>setTimeout\<close> and the promise that the timer's callback resolves. The record holds
  the delay handed to \<^verbatim>\<open>setTimeout\<close>, the line the callback logs, and the object the
  callback passes to \<^verbatim>\<open>resolve\<close>. The executor receives \<^verbatim>\<open>resolve\<close> only, so the
  promise has no path to rejection.
\<close>

record promise =
  p_delay :: nat
  p_log :: string
  p_value :: UserData

definition fetchUserData :: "int \<Rightarrow> string \<Rightarrow> console \<Rightarrow> promise \<times> console" where
  "fetchUserData userId msg c =
     (let c1 = console_log (msg @ ''Fetching user '' @ show_int userId @ ''...'') c;
          delay = (if userId = 1 then 3000 else 1000)
      in (\<lparr>p_delay = delay,
           p_log = msg @ ''Received data for user '' @ show_int userId,
           p_value = \<lparr>id' = userId,
                      name = ''User '' @ show_int userId,
                      email = ''user'' @ show_int userId @ ''@example.com''\<rparr>\<rparr>, c1))"

section \<open>Components\<close>

text \<open>
  The state of one mounted component instance: the two \<^verbatim>\<open>useState\<close> cells, the
  dependency value of the last effect run (\<open>None\<close> before the first render), whether
  the instance has been unmounted, the effect instances created so far (one per run of
  the effect, in order) and the console. React runs the effect after the first render and
  after every render whose dependency differs from the recorded one, the cleanup of the
  previous run first; it runs the cleanup of the latest run on unmount and never renders an
  unmounted instance again. After an unmount the two cells hold what the setters were last
  called with.
\<close>

record 'c comp =
  data :: "UserData option"
  loading :: bool
  deps :: "int option"
  unmounted :: bool
  effects :: "'c list"
  console :: console

text \<open>
  What happens to a component: it is rendered with a \<^verbatim>\<open>userId\<close> prop (the first
  render mounts it), it is unmounted, the timer of its \<open>k\<close>-th fetch fires and
  resolves the promise, or (not produced by \<^verbatim>\<open>fetchUserData\<close>, injected to study
  failures) the promise of its \<open>k\<close>-th fetch rejects.
\<close>

datatype event = Render int | Unmount | Resolve nat | Reject nat

definition display :: "'c comp \<Rightarrow> UserData option \<times> bool" where
  "display s = (data s, loading s)"

subsection \<open>\<^verbatim>\<open>WithoutCleanup\<close>\<close>

text \<open>One run of the effect of \<^verbatim>\<open>WithoutCleanup\<close>: the captured prop and the fetch.\<close>

record invocation =
  i_userId :: int
  i_promise :: promise
  i_settled :: bool

definition WithoutCleanup_init :: "console \<Rightarrow> invocation comp" where
  "WithoutCleanup_init c =
     \<lparr>data = None, loading = True, deps = None, unmounted = False, effects = [], console = c\<rparr>"

definition WithoutCleanup_effect :: "int \<Rightarrow> invocation comp \<Rightarrow> invocation comp" where
  "WithoutCleanup_effect userId s =
     (let c1 = console_log (red @ '' Effect running for userId='' @ show_int userId) (console s);
          s1 = s\<lparr>console := c1, loading := True\<rparr>;
          (p, c2) = fetchUserData userId red (console s1)
      in s1\<lparr>console := c2,
             effects := effects s1 @ [\<lparr>i_userId = userId, i_promise = p, i_settled = False\<rparr>]\<rparr>)"

text \<open>The callback given to \<^verbatim>\<open>then\<close> by the \<open>k\<close>-th effect run.\<close>

definition WithoutCleanup_then :: "nat \<Rightarrow> UserData \<Rightarrow> invocation comp \<Rightarrow> invocation comp" where
  "WithoutCleanup_then k userData s =
     (let c1 = console_log (red @ '' Setting state for userId='' @ show_int (i_userId (effects s ! k)))
                 (console s)
      in s\<lparr>console := c1, data := Some userData, loading := False\<rparr>)"

fun WithoutCleanup_step :: "event \<Rightarrow> invocation comp \<Rightarrow> invocation comp" where
  "WithoutCleanup_step (Render userId) s =
     (if unmounted s then s
      else if deps s = Some userId then s
      else WithoutCleanup_effect userId (s\<lparr>deps := Some userId\<rparr>))"
| "WithoutCleanup_step Unmount s = s\<lparr>unmounted := True\<rparr>"
| "WithoutCleanup_step (Resolve k) s =
     (if k < length (effects s) \<and> \<not> i_settled (effects s ! k) then
        let i = effects s ! k;
            s1 = s\<lparr>console := console_log (p_log (i_promise i)) (console s),
                   effects := (effects s)[k := i\<lparr>i_settled := True\<rparr>]\<rparr>
        in WithoutCleanup_then k (p_value (i_promise i)) s1
      else s)"
| "WithoutCleanup_step (Reject k) s =
     (if k < length (effects s) \<and> \<not> i_settled (effects s ! k) then
        s\<lparr>effects := (effects s)[k := (effects s ! k)\<lparr>i_settled := True\<rparr>]\<rparr>
      else s)"

definition WithoutCleanup_run :: "event list \<Rightarrow> invocation comp \<Rightarrow> invocation comp" where
  "WithoutCleanup_run evs s = foldl (\<lambda>s e. WithoutCleanup_step e s) s evs"

subsection \<open>\<^verbatim>\<open>WithCleanup\<close>\<close>

text \<open>
  One run of the effect of \<^verbatim>\<open>WithCleanup\<close>: the captured prop, the cell of the
  \<^verbatim>\<open>let isMounted\<close> of that run, and the fetch.
\<close>

record cycle =
  c_userId :: int
  isMounted :: bool
  c_promise :: promise
  c_settled :: bool

definition WithCleanup_init :: "console \<Rightarrow> cycle comp" where
  "WithCleanup_init c =
     \<lparr>data = None, loading = True, deps = None, unmounted = False, effects = [], console = c\<rparr>"

definition fetchUser :: "int \<Rightarrow> console \<Rightarrow> promise \<times> console" where
  "fetchUser userId c =
     fetchUserData userId green
       (console_log (green @ '' fetchUser called for userId='' @ show_int userId) c)"

definition WithCleanup_effect :: "int \<Rightarrow> cycle comp \<Rightarrow> cycle comp" where
  "WithCleanup_effect userId s =
     (let c1 = console_log (green @ '' Effect running for userId='' @ show_int userId) (console s);
          s1 = s\<lparr>console := c1, loading := True\<rparr>;
          (p, c2) = fetchUser userId (console s1)
      in s1\<lparr>console := c2,
             effects := effects s1 @
               [\<lparr>c_userId = userId, isMounted = True, c_promise = p, c_settled = False\<rparr>]\<rparr>)"

text \<open>
  The cleanup function returned by the latest effect run; React holds it until the
  effect runs again or the component unmounts. It writes the cell of its own run only.
\<close>

definition WithCleanup_cleanup :: "cycle comp \<Rightarrow> cycle comp" where
  "WithCleanup_cleanup s =
     (case effects s of
        [] \<Rightarrow> s
      | _ # _ \<Rightarrow>
          let k = length (effects s) - 1;
              cy = effects s ! k;
              c1 = console_log (green @ '' Cleanup for userId='' @ show_int (c_userId cy)) (console s)
          in s\<lparr>console := c1, effects := (effects s)[k := cy\<lparr>isMounted := False\<rparr>]\<rparr>)"

text \<open>The callback given to \<^verbatim>\<open>then\<close> by the \<open>k\<close>-th effect run.\<close>

definition WithCleanup_then :: "nat \<Rightarrow> UserData \<Rightarrow> cycle comp \<Rightarrow> cycle comp" where
  "WithCleanup_then k userData s =
     (let cy = effects s ! k in
      if isMounted cy then
        s\<lparr>console := console_log (green @ '' Setting state for userId='' @ show_int (c_userId cy)
                        @ '' (isMounted='' @ show_bool (isMounted cy) @ '')'') (console s),
          data := Some userData, loading := False\<rparr>
      else
        s\<lparr>console := console_log (green @ '' Ignoring response for userId='' @ show_int (c_userId cy)
                        @ '' (isMounted='' @ show_bool (isMounted cy) @ '')'') (console s)\<rparr>)"

fun WithCleanup_step :: "event \<Rightarrow> cycle comp \<Rightarrow> cycle comp" where
  "WithCleanup_step (Render userId) s =
     (if unmounted s then s
      else if deps s = Some userId then s
      else WithCleanup_effect userId (WithCleanup_cleanup (s\<lparr>deps := Some userId\<rparr>)))"
| "WithCleanup_step Unmount s =
     (if unmounted s then s else (WithCleanup_cleanup s)\<lparr>unmounted := True\<rparr>)"
| "WithCleanup_step (Resolve k) s =
     (if k < length (effects s) \<and> \<not> c_settled (effects s ! k) then
        let cy = effects s ! k;
            s1 = s\<lparr>console := console_log (p_log (c_promise cy)) (console s),
                   effects := (effects s)[k := cy\<lparr>c_settled := True\<rparr>]\<rparr>
        in WithCleanup_then k (p_value (c_promise cy)) s1
      else s)"
| "WithCleanup_step (Reject k) s =
     (if k < length (effects s) \<and> \<not> c_settled (effects s ! k) then
        s\<lparr>effects := (effects s)[k := (effects s ! k)\<lparr>c_settled := True\<rparr>]\<rparr>
      else s)"

definition WithCleanup_run :: "event list \<Rightarrow> cycle comp \<Rightarrow> cycle comp" where
  "WithCleanup_run evs s = foldl (\<lambda>s e. WithCleanup_step e s) s evs"

section \<open>Runs and derived notions\<close>

text \<open>All states a run passes through, the starting state first.\<close>

fun states :: "(event \<Rightarrow> 's \<Rightarrow> 's) \<Rightarrow> event list \<Rightarrow> 's \<Rightarrow> 's list" where
  "states step [] s = [s]"
| "states step (e # evs) s = s # states step evs (step e s)"

text \<open>The same component state in a run without a trace sink.\<close>

definition no_sink :: "'c comp \<Rightarrow> 'c comp" where
  "no_sink s = s\<lparr>console := None\<rparr>"

text \<open>The liveness flags of all effect runs of a \<^verbatim>\<open>WithCleanup\<close> instance, in start order.\<close>

definition flags :: "cycle comp \<Rightarrow> bool list" where
  "flags s = map isMounted (effects s)"

text \<open>The identifiers captured by the effect runs, in start order.\<close>

definition uids :: "cycle comp \<Rightarrow> int list" where
  "uids s = map c_userId (effects s)"

text \<open>Every flag but the one of the latest effect run is false.\<close>

definition butlast_dead :: "cycle comp \<Rightarrow> bool" where
  "butlast_dead s \<longleftrightarrow> (\<forall>b\<in>set (butlast (flags s)). \<not> b)"

text \<open>
  The effect run \<open>kB\<close> is the latest one and the only live one, its promise resolves
  with \<open>v\<close>, and once that promise has settled the component shows \<open>v\<close>.
\<close>

definition last_live :: "nat \<Rightarrow> UserData \<Rightarrow> cycle comp \<Rightarrow> bool" where
  "last_live kB v s \<longleftrightarrow>
     length (effects s) = Suc kB \<and> (\<forall>k<kB. \<not> isMounted (effects s ! k)) \<and>
     isMounted (effects s ! kB) \<and> p_value (c_promise (effects s ! kB)) = v \<and>
     (c_settled (effects s ! kB) \<longrightarrow> data s = Some v \<and> \<not> loading s)"

text \<open>The recorded dependency is the identifier of the latest effect run.\<close>

definition deps_last :: "cycle comp \<Rightarrow> bool" where
  "deps_last s \<longleftrightarrow>
     (case deps s of None \<Rightarrow> uids s = [] | Some u \<Rightarrow> uids s \<noteq> [] \<and> last (uids s) = u)"

definition woc_deps_last :: "invocation comp \<Rightarrow> bool" where
  "woc_deps_last s \<longleftrightarrow>
     (case deps s of None \<Rightarrow> effects s = []
      | Some u \<Rightarrow> effects s \<noteq> [] \<and> i_userId (last (effects s)) = u)"

text \<open>Every promise held by a component is the one \<^verbatim>\<open>fetchUserData\<close> makes for its identifier.\<close>

definition woc_promises :: "invocation comp \<Rightarrow> bool" where
  "woc_promises s \<longleftrightarrow>
     (\<forall>i\<in>set (effects s). i_promise i = fst (fetchUserData (i_userId i) red None))"

definition wc_promises :: "cycle comp \<Rightarrow> bool" where
  "wc_promises s \<longleftrightarrow>
     (\<forall>cy\<in>set (effects s). c_promise cy = fst (fetchUserData (c_userId cy) green None))"

text \<open>The fetch \<open>k\<close> of a \<^verbatim>\<open>WithoutCleanup\<close> instance is in flight and holds the promise \<open>p\<close>.\<close>

definition pending :: "nat \<Rightarrow> promise \<Rightarrow> invocation comp \<Rightarrow> bool" where
  "pending k p s \<longleftrightarrow>
     k < length (effects s) \<and> \<not> i_settled (effects s ! k) \<and> i_promise (effects s ! k) = p"

section \<open>Timers\<close>

text \<open>
  The timer queue of the browser, as far as the components use it: a callback handed to
  \<^verbatim>\<open>setTimeout\<close> with delay \<open>d\<close> at time \<open>t\<close> runs at time \<open>t + d\<close>, and callbacks due at the
  same time run in the order of their registration. A timed component holds the clock and,
  for each effect run, the time at which its fetch called \<^verbatim>\<open>setTimeout\<close>.
\<close>

record 'c timed =
  clock :: nat
  started :: "nat list"
  component :: "'c comp"

text \<open>The fetches in flight whose timers are due by \<open>now\<close>, in firing order.\<close>

definition fire_order ::
  "('c \<Rightarrow> promise) \<Rightarrow> ('c \<Rightarrow> bool) \<Rightarrow> nat list \<Rightarrow> 'c list \<Rightarrow> nat \<Rightarrow> nat list" where
  "fire_order prom settled st es now =
     sort_key (\<lambda>k. st ! k + p_delay (prom (es ! k)))
       (filter (\<lambda>k. \<not> settled (es ! k) \<and> st ! k + p_delay (prom (es ! k)) \<le> now)
          [0..<length es])"

text \<open>Time passes until \<open>t\<close>: every timer due by then fires and resolves its promise.\<close>

definition advance ::
  "(event \<Rightarrow> 'c comp \<Rightarrow> 'c comp) \<Rightarrow> ('c \<Rightarrow> promise) \<Rightarrow> ('c \<Rightarrow> bool) \<Rightarrow>
   nat \<Rightarrow> 'c timed \<Rightarrow> 'c timed" where
  "advance step prom settled t w =
     (let now = max (clock w) t;
          ks = fire_order prom settled (started w) (effects (component w)) now
      in w\<lparr>clock := now, component := foldl (\<lambda>s k. step (Resolve k) s) (component w) ks\<rparr>)"

text \<open>An event at time \<open>t\<close>; the fetch of an effect run it starts registers its timer then.\<close>

definition at_time ::
  "(event \<Rightarrow> 'c comp \<Rightarrow> 'c comp) \<Rightarrow> ('c \<Rightarrow> promise) \<Rightarrow> ('c \<Rightarrow> bool) \<Rightarrow>
   nat \<Rightarrow> event \<Rightarrow> 'c timed \<Rightarrow> 'c timed" where
  "at_time step prom settled t e w =
     (let w1 = advance step prom settled t w;
          s2 = step e (component w1);
          n = length (effects s2) - length (effects (component w1))
      in w1\<lparr>component := s2, started := started w1 @ replicate n (clock w1)\<rparr>)"

definition WithoutCleanup_timed :: "console \<Rightarrow> invocation timed" where
  "WithoutCleanup_timed c = \<lparr>clock = 0, started = [], component = WithoutCleanup_init c\<rparr>"

definition WithCleanup_timed :: "console \<Rightarrow> cycle timed" where
  "WithCleanup_timed c = \<lparr>clock = 0, started = [], component = WithCleanup_init c\<rparr>"

section \<open>Evaluation on concrete inputs\<close>

lemma show_int_1: "show_int 1 = ''1''"
  by (simp add: show_int_def show_nat.simps digit_char_def)

lemma show_int_2: "show_int 2 = ''2''"
  by (simp add: show_int_def show_nat.simps digit_char_def)

lemmas eval_defs =
  WithCleanup_run_def WithCleanup_init_def WithCleanup_effect_def WithCleanup_cleanup_def
  WithCleanup_then_def WithoutCleanup_run_def WithoutCleanup_init_def WithoutCleanup_effect_def
  WithoutCleanup_then_def fetchUser_def fetchUserData_def console_log_def display_def Let_def
  show_int_1 show_int_2

section \<open>What each operation does to each field\<close>

lemma fst_fetchUserData:
  "fst (fetchUserData userId msg c) =
     \<lparr>p_delay = (if userId = 1 then 3000 else 1000),
      p_log = msg @ ''Received data for user '' @ show_int userId,
      p_value = \<lparr>id' = userId, name = ''User '' @ show_int userId,
                 email = ''user'' @ show_int userId @ ''@example.com''\<rparr>\<rparr>"
  by (simp add: fetchUserData_def Let_def)

lemma fst_fetchUser: "fst (fetchUser userId c) = fst (fetchUserData userId green None)"
  by (simp add: fetchUser_def fst_fetchUserData)

lemma map_update_same: "f y = f (xs ! k) \<Longrightarrow> map f (xs[k := y]) = map f xs"
  by (cases "k < length xs") (simp_all add: map_update list_update_same_conv list_update_beyond)

lemma in_set_updateD: "x \<in> set (xs[k := y]) \<Longrightarrow> x = y \<or> x \<in> set xs"
  using set_update_subset_insert [of xs k y] by auto

lemma last_index_mem: "xs \<noteq> [] \<Longrightarrow> xs ! (length xs - 1) \<in> set xs"
  by simp

subsection \<open>\<^verbatim>\<open>WithoutCleanup\<close>\<close>

lemma woc_run_simps:
  "WithoutCleanup_run [] s = s"
  "WithoutCleanup_run (e # evs) s = WithoutCleanup_run evs (WithoutCleanup_step e s)"
  "WithoutCleanup_run (xs @ ys) s = WithoutCleanup_run ys (WithoutCleanup_run xs s)"
  by (simp_all add: WithoutCleanup_run_def)

lemma woc_run_snoc:
  "WithoutCleanup_run (evs @ [e]) s = WithoutCleanup_step e (WithoutCleanup_run evs s)"
  by (simp add: WithoutCleanup_run_def)

lemma woc_effect_fields:
  "data (WithoutCleanup_effect u s) = data s"
  "loading (WithoutCleanup_effect u s) = True"
  "deps (WithoutCleanup_effect u s) = deps s"
  "unmounted (WithoutCleanup_effect u s) = unmounted s"
  "effects (WithoutCleanup_effect u s) = effects s @
      [\<lparr>i_userId = u, i_promise = fst (fetchUserData u red None), i_settled = False\<rparr>]"
  by (simp_all add: WithoutCleanup_effect_def Let_def case_prod_beta fst_fetchUserData)

lemma woc_then_fields:
  "data (WithoutCleanup_then k u s) = Some u"
  "loading (WithoutCleanup_then k u s) = False"
  "deps (WithoutCleanup_then k u s) = deps s"
  "unmounted (WithoutCleanup_then k u s) = unmounted s"
  "effects (WithoutCleanup_then k u s) = effects s"
  by (simp_all add: WithoutCleanup_then_def Let_def)

lemma woc_render_fields:
  "unmounted (WithoutCleanup_step (Render u) s) = unmounted s"
  "deps (WithoutCleanup_step (Render u) s) = (if unmounted s then deps s else Some u)"
  "effects (WithoutCleanup_step (Render u) s) =
     (if unmounted s \<or> deps s = Some u then effects s
      else effects s @ [\<lparr>i_userId = u, i_promise = fst (fetchUserData u red None), i_settled = False\<rparr>])"
  by (simp_all add: woc_effect_fields)

lemma woc_resolve_effects:
  "effects (WithoutCleanup_step (Resolve k) s) =
     (if k < length (effects s) \<and> \<not> i_settled (effects s ! k)
      then (effects s)[k := (effects s ! k)\<lparr>i_settled := True\<rparr>] else effects s)"
  by (simp add: Let_def woc_then_fields)

lemma woc_resolve_display:
  "display (WithoutCleanup_step (Resolve k) s) =
     (if k < length (effects s) \<and> \<not> i_settled (effects s ! k)
      then (Some (p_value (i_promise (effects s ! k))), False) else display s)"
  by (simp add: Let_def woc_then_fields display_def)

lemma woc_resolve_noop:
  "k < length (effects t) \<longrightarrow> i_settled (effects t ! k) \<Longrightarrow> WithoutCleanup_step (Resolve k) t = t"
  by auto

lemma woc_resolve_settles:
  "k < length (effects (WithoutCleanup_step (Resolve k) s)) \<longrightarrow>
     i_settled (effects (WithoutCleanup_step (Resolve k) s) ! k)"
  unfolding woc_resolve_effects by simp

lemma woc_effects_step:
  "effects (WithoutCleanup_step e s) =
     (case e of
        Render u \<Rightarrow> if unmounted s \<or> deps s = Some u then effects s
                    else effects s @ [\<lparr>i_userId = u, i_promise = fst (fetchUserData u red None), i_settled = False\<rparr>]
      | Unmount \<Rightarrow> effects s
      | Resolve k \<Rightarrow> if k < length (effects s) \<and> \<not> i_settled (effects s ! k)
                     then (effects s)[k := (effects s ! k)\<lparr>i_settled := True\<rparr>] else effects s
      | Reject k \<Rightarrow> if k < length (effects s) \<and> \<not> i_settled (effects s ! k)
                     then (effects s)[k := (effects s ! k)\<lparr>i_settled := True\<rparr>] else effects s)"
  by (cases e) (simp_all add: woc_effect_fields woc_then_fields Let_def)

lemma woc_step_deps:
  "deps (WithoutCleanup_step e s) =
     (case e of Render u \<Rightarrow> if unmounted s then deps s else Some u | _ \<Rightarrow> deps s)"
  by (cases e) (simp_all add: woc_effect_fields woc_then_fields Let_def)

subsection \<open>\<^verbatim>\<open>WithCleanup\<close>\<close>

lemma wc_run_simps:
  "WithCleanup_run [] s = s"
  "WithCleanup_run (e # evs) s = WithCleanup_run evs (WithCleanup_step e s)"
  "WithCleanup_run (xs @ ys) s = WithCleanup_run ys (WithCleanup_run xs s)"
  by (simp_all add: WithCleanup_run_def)

lemma wc_run_snoc: "WithCleanup_run (evs @ [e]) s = WithCleanup_step e (WithCleanup_run evs s)"
  by (simp add: WithCleanup_run_def)

lemma wc_effect_fields:
  "data (WithCleanup_effect u s) = data s"
  "loading (WithCleanup_effect u s) = True"
  "deps (WithCleanup_effect u s) = deps s"
  "unmounted (WithCleanup_effect u s) = unmounted s"
  "effects (WithCleanup_effect u s) = effects s @
      [\<lparr>c_userId = u, isMounted = True, c_promise = fst (fetchUserData u green None), c_settled = False\<rparr>]"
  by (simp_all add: WithCleanup_effect_def Let_def case_prod_beta fst_fetchUser)

lemma wc_cleanup_fields:
  "data (WithCleanup_cleanup s) = data s"
  "loading (WithCleanup_cleanup s) = loading s"
  "deps (WithCleanup_cleanup s) = deps s"
  "unmounted (WithCleanup_cleanup s) = unmounted s"
  "effects (WithCleanup_cleanup s) =
     (effects s)[length (effects s) - 1 := (effects s ! (length (effects s) - 1))\<lparr>isMounted := False\<rparr>]"
  by (simp_all add: WithCleanup_cleanup_def Let_def split: list.splits)

lemma wc_then_fields:
  "data (WithCleanup_then k u s) = (if isMounted (effects s ! k) then Some u else data s)"
  "loading (WithCleanup_then k u s) = (if isMounted (effects s ! k) then False else loading s)"
  "deps (WithCleanup_then k u s) = deps s"
  "unmounted (WithCleanup_then k u s) = unmounted s"
  "effects (WithCleanup_then k u s) = effects s"
  by (simp_all add: WithCleanup_then_def Let_def)

lemma wc_render_fields:
  "unmounted (WithCleanup_step (Render u) s) = unmounted s"
  "deps (WithCleanup_step (Render u) s) = (if unmounted s then deps s else Some u)"
  "length (effects (WithCleanup_step (Render u) s)) =
     (if unmounted s \<or> deps s = Some u then length (effects s) else Suc (length (effects s)))"
  by (simp_all add: wc_effect_fields wc_cleanup_fields)

lemma wc_resolve_effects:
  "effects (WithCleanup_step (Resolve k) s) =
     (if k < length (effects s) \<and> \<not> c_settled (effects s ! k)
      then (effects s)[k := (effects s ! k)\<lparr>c_settled := True\<rparr>] else effects s)"
  by (simp add: Let_def wc_then_fields)

lemma wc_resolve_data:
  "data (WithCleanup_step (Resolve k) s) =
     (if k < length (effects s) \<and> \<not> c_settled (effects s ! k) \<and> isMounted (effects s ! k)
      then Some (p_value (c_promise (effects s ! k))) else data s)"
  by (simp add: Let_def wc_then_fields)

lemma wc_resolve_loading:
  "loading (WithCleanup_step (Resolve k) s) =
     (if k < length (effects s) \<and> \<not> c_settled (effects s ! k) \<and> isMounted (effects s ! k)
      then False else loading s)"
  by (simp add: Let_def wc_then_fields)

lemma wc_resolve_noop:
  "k < length (effects t) \<longrightarrow> c_settled (effects t ! k) \<Longrightarrow> WithCleanup_step (Resolve k) t = t"
  by auto

lemma wc_resolve_settles:
  "k < length (effects (WithCleanup_step (Resolve k) s)) \<longrightarrow>
     c_settled (effects (WithCleanup_step (Resolve k) s) ! k)"
  unfolding wc_resolve_effects by simp

lemma wc_effects_step:
  "effects (WithCleanup_step e s) =
     (case e of
        Render u \<Rightarrow> if unmounted s \<or> deps s = Some u then effects s
                    else (effects s)[length (effects s) - 1 := (effects s ! (length (effects s) - 1))\<lparr>isMounted := False\<rparr>]
                         @ [\<lparr>c_userId = u, isMounted = True, c_promise = fst (fetchUserData u green None), c_settled = False\<rparr>]
      | Unmount \<Rightarrow> if unmounted s then effects s
                   else (effects s)[length (effects s) - 1 := (effects s ! (length (effects s) - 1))\<lparr>isMounted := False\<rparr>]
      | Resolve k \<Rightarrow> if k < length (effects s) \<and> \<not> c_settled (effects s ! k)
                     then (effects s)[k := (effects s ! k)\<lparr>c_settled := True\<rparr>] else effects s
      | Reject k \<Rightarrow> if k < length (effects s) \<and> \<not> c_settled (effects s ! k)
                     then (effects s)[k := (effects s ! k)\<lparr>c_settled := True\<rparr>] else effects s)"
  by (cases e) (simp_all add: wc_effect_fields wc_cleanup_fields wc_then_fields Let_def)

lemma wc_step_deps:
  "deps (WithCleanup_step e s) =
     (case e of Render u \<Rightarrow> if unmounted s then deps s else Some u | _ \<Rightarrow> deps s)"
  by (cases e) (simp_all add: wc_effect_fields wc_cleanup_fields wc_then_fields Let_def)

section \<open>The liveness flags\<close>

lemma flags_effect: "flags (WithCleanup_effect u s) = flags s @ [True]"
  by (simp add: flags_def wc_effect_fields)

lemma flags_cleanup: "flags (WithCleanup_cleanup s) = (flags s)[length (flags s) - 1 := False]"
  by (cases "effects s" rule: rev_cases)
     (simp_all add: flags_def wc_cleanup_fields map_update list_update_append)

lemma flags_then: "flags (WithCleanup_then k u s) = flags s"
  by (simp add: flags_def wc_then_fields)

lemma flags_step:
  "flags (WithCleanup_step (Render u) s) =
     (if unmounted s \<or> deps s = Some u then flags s
      else (flags s)[length (flags s) - 1 := False] @ [True])"
  "flags (WithCleanup_step Unmount s) =
     (if unmounted s then flags s else (flags s)[length (flags s) - 1 := False])"
  "flags (WithCleanup_step (Resolve k) s) = flags s"
  "flags (WithCleanup_step (Reject k) s) = flags s"
proof -
  show "flags (WithCleanup_step (Render u) s) =
     (if unmounted s \<or> deps s = Some u then flags s
      else (flags s)[length (flags s) - 1 := False] @ [True])"
    by (simp add: flags_effect flags_cleanup) (simp add: flags_def)
  show "flags (WithCleanup_step Unmount s) =
     (if unmounted s then flags s else (flags s)[length (flags s) - 1 := False])"
    using flags_cleanup [of s] by (simp add: flags_def)
  show "flags (WithCleanup_step (Resolve k) s) = flags s"
    by (simp add: Let_def flags_then) (simp add: flags_def map_update_same)
  show "flags (WithCleanup_step (Reject k) s) = flags s"
    by (simp add: flags_def map_update_same)
qed

lemma update_last_False:
  "\<forall>b\<in>set (butlast xs). \<not> b \<Longrightarrow> \<forall>b\<in>set (xs[length xs - 1 := False]). \<not> b"
  by (cases xs rule: rev_cases) auto

lemma all_dead_filter: "(\<forall>b\<in>set xs. \<not> b) \<longleftrightarrow> filter (\<lambda>b. b) xs = []"
  by (induction xs) auto

lemma butlast_update_last: "butlast (xs[length xs - 1 := x]) = butlast xs"
  by (cases xs rule: rev_cases) (simp_all add: list_update_append)

lemma filter_butlast_dead:
  "\<forall>b\<in>set (butlast xs). \<not> b \<Longrightarrow> length (filter (\<lambda>b. b) xs) \<le> 1"
  by (cases xs rule: rev_cases) (simp_all add: all_dead_filter)

lemma filter_isMounted_flags:
  "length (filter isMounted (effects s)) = length (filter (\<lambda>b. b) (flags s))"
  by (simp add: flags_def filter_map comp_def)

lemma flags_deps_update [simp]: "flags (s\<lparr>deps := d\<rparr>) = flags s"
  by (simp add: flags_def)

lemma butlast_dead_deps_update [simp]: "butlast_dead (s\<lparr>deps := d\<rparr>) = butlast_dead s"
  by (simp add: butlast_dead_def)

lemma butlast_dead_init: "butlast_dead (WithCleanup_init c)"
  by (simp add: butlast_dead_def flags_def WithCleanup_init_def)

lemma butlast_dead_step: "butlast_dead s \<Longrightarrow> butlast_dead (WithCleanup_step e s)"
proof (cases e)
  case (Render u)
  assume "butlast_dead s"
  then have "\<forall>b\<in>set ((flags s)[length (flags s) - 1 := False]). \<not> b"
    unfolding butlast_dead_def by (rule update_last_False)
  with \<open>butlast_dead s\<close> show ?thesis
    unfolding butlast_dead_def Render flags_step by auto
next
  case Unmount
  assume "butlast_dead s"
  then show ?thesis
    unfolding butlast_dead_def Unmount flags_step
    using butlast_update_last [of "flags s" False] by simp
next
  case (Resolve k)
  assume "butlast_dead s"
  then show ?thesis unfolding butlast_dead_def Resolve flags_step .
next
  case (Reject k)
  assume "butlast_dead s"
  then show ?thesis unfolding butlast_dead_def Reject flags_step .
qed

lemma butlast_dead_run: "butlast_dead s \<Longrightarrow> butlast_dead (WithCleanup_run evs s)"
  by (induction evs arbitrary: s) (simp_all add: wc_run_simps butlast_dead_step)

lemma butlast_dead_reachable: "butlast_dead (WithCleanup_run evs (WithCleanup_init c))"
  by (rule butlast_dead_run [OF butlast_dead_init])

lemma cleanup_all_dead:
  "butlast_dead s \<Longrightarrow> filter isMounted (effects (WithCleanup_cleanup s)) = []"
proof -
  assume "butlast_dead s"
  then have "\<forall>b\<in>set (flags (WithCleanup_cleanup s)). \<not> b"
    unfolding butlast_dead_def flags_cleanup by (rule update_last_False)
  then show ?thesis by (auto simp: flags_def filter_empty_conv)
qed

lemma flag_stays_false_step:
  assumes "k < length (flags s)" "\<not> flags s ! k"
  shows "k < length (flags (WithCleanup_step e s)) \<and> \<not> flags (WithCleanup_step e s) ! k"
  using assms
  by (cases e)
     (auto simp add: flags_step nth_append nth_list_update simp del: WithCleanup_step.simps)

lemma flag_stays_false_run:
  "k < length (flags s) \<Longrightarrow> \<not> flags s ! k \<Longrightarrow>
     k < length (flags (WithCleanup_run evs s)) \<and> \<not> flags (WithCleanup_run evs s) ! k"
proof (induction evs arbitrary: s)
  case Nil
  then show ?case by (simp add: wc_run_simps)
next
  case (Cons e evs)
  from flag_stays_false_step [OF Cons.prems, of e] Cons.IH [of "WithCleanup_step e s"]
  show ?case by (simp add: wc_run_simps del: WithCleanup_step.simps)
qed

section \<open>The latest effect run wins in \<^verbatim>\<open>WithCleanup\<close>\<close>

lemma last_live_resolve:
  assumes "last_live kB v s"
  shows "last_live kB v (WithCleanup_step (Resolve k) s)"
    and "k = kB \<or> c_settled (effects s ! kB) \<Longrightarrow>
           c_settled (effects (WithCleanup_step (Resolve k) s) ! kB)"
  using assms unfolding last_live_def wc_resolve_effects wc_resolve_data wc_resolve_loading
  by (auto simp: nth_list_update)

lemma last_live_run:
  "last_live kB v s \<Longrightarrow> last_live kB v (WithCleanup_run (map Resolve ks) s)"
  by (induction ks arbitrary: s)
     (simp_all add: wc_run_simps last_live_resolve del: WithCleanup_step.simps)

lemma settled_run:
  "last_live kB v s \<Longrightarrow> kB \<in> set ks \<or> c_settled (effects s ! kB) \<Longrightarrow>
     c_settled (effects (WithCleanup_run (map Resolve ks) s) ! kB)"
proof (induction ks arbitrary: s)
  case Nil
  then show ?case by (simp add: wc_run_simps)
next
  case (Cons k ks)
  show ?case
  proof (cases "k = kB \<or> c_settled (effects s ! kB)")
    case True
    with Cons.prems(1) have "c_settled (effects (WithCleanup_step (Resolve k) s) ! kB)"
      by (rule last_live_resolve(2))
    with Cons.IH [OF last_live_resolve(1) [OF Cons.prems(1)]] show ?thesis
      by (simp add: wc_run_simps del: WithCleanup_step.simps)
  next
    case False
    with Cons.prems(2) have "kB \<in> set ks" by auto
    with Cons.IH [OF last_live_resolve(1) [OF Cons.prems(1)]] show ?thesis
      by (simp add: wc_run_simps del: WithCleanup_step.simps)
  qed
qed

lemma last_live_wins:
  assumes "last_live kB v s" "kB \<in> set ks"
  shows "data (WithCleanup_run (map Resolve ks) s) = Some v \<and>
         \<not> loading (WithCleanup_run (map Resolve ks) s)"
  using last_live_run [OF assms(1), of ks] settled_run [OF assms(1), of ks] assms(2)
  by (simp add: last_live_def)

lemma last_live_render:
  assumes bd: "butlast_dead s" and m: "\<not> unmounted s" and d: "deps s \<noteq> Some u"
  shows "last_live (length (effects s)) (p_value (fst (fetchUserData u green None)))
           (WithCleanup_step (Render u) s)"
proof -
  let ?s1 = "WithCleanup_cleanup (s\<lparr>deps := Some u\<rparr>)"
  have st: "WithCleanup_step (Render u) s = WithCleanup_effect u ?s1"
    using m d by simp
  have len: "length (effects ?s1) = length (effects s)"
    by (simp add: wc_cleanup_fields)
  from bd have "filter isMounted (effects ?s1) = []"
    by (intro cleanup_all_dead) simp
  then have dead: "\<forall>c\<in>set (effects ?s1). \<not> isMounted c"
    by (simp add: filter_empty_conv)
  have "\<forall>k<length (effects s). \<not> isMounted (effects ?s1 ! k)"
    using dead len by (metis nth_mem)
  then show ?thesis
    unfolding st last_live_def wc_effect_fields
    by (simp add: len nth_append)
qed

section \<open>A fetch in flight in \<^verbatim>\<open>WithoutCleanup\<close>\<close>

lemma pending_resolve:
  "pending kA p s \<Longrightarrow> k \<noteq> kA \<Longrightarrow> pending kA p (WithoutCleanup_step (Resolve k) s)"
  unfolding pending_def woc_resolve_effects by (simp add: nth_list_update)

lemma pending_run:
  "pending kA p s \<Longrightarrow> kA \<notin> set ks \<Longrightarrow> pending kA p (WithoutCleanup_run (map Resolve ks) s)"
  by (induction ks arbitrary: s)
     (auto simp add: woc_run_simps pending_resolve simp del: WithoutCleanup_step.simps)

section \<open>Identifiers and promises of the effect runs\<close>

lemma uids_cleanup: "uids (WithCleanup_cleanup s) = uids s"
  by (simp add: uids_def wc_cleanup_fields map_update_same)

lemma uids_effect: "uids (WithCleanup_effect u s) = uids s @ [u]"
  by (simp add: uids_def wc_effect_fields)

lemma uids_step:
  "uids (WithCleanup_step (Render u) s) =
     (if unmounted s \<or> deps s = Some u then uids s else uids s @ [u])"
  "uids (WithCleanup_step Unmount s) = uids s"
  "uids (WithCleanup_step (Resolve k) s) = uids s"
  "uids (WithCleanup_step (Reject k) s) = uids s"
proof -
  show "uids (WithCleanup_step (Render u) s) =
     (if unmounted s \<or> deps s = Some u then uids s else uids s @ [u])"
    by (simp add: uids_effect uids_cleanup) (simp add: uids_def)
  show "uids (WithCleanup_step Unmount s) = uids s"
    using uids_cleanup [of s] by (simp add: uids_def)
  show "uids (WithCleanup_step (Resolve k) s) = uids s"
    unfolding uids_def wc_resolve_effects by (simp add: map_update_same)
  show "uids (WithCleanup_step (Reject k) s) = uids s"
    by (simp add: uids_def map_update_same)
qed

lemma deps_last_step: "deps_last s \<Longrightarrow> deps_last (WithCleanup_step e s)"
  by (cases e)
     (auto simp add: deps_last_def uids_step wc_step_deps simp del: WithCleanup_step.simps
           split: option.splits)

lemma deps_last_reachable: "deps_last (WithCleanup_run evs (WithCleanup_init c))"
proof (induction evs rule: rev_induct)
  case Nil
  show ?case by (simp add: wc_run_simps deps_last_def uids_def WithCleanup_init_def)
next
  case (snoc e evs)
  then show ?case unfolding wc_run_snoc by (rule deps_last_step)
qed

lemma woc_deps_last_step: "woc_deps_last s \<Longrightarrow> woc_deps_last (WithoutCleanup_step e s)"
  unfolding woc_deps_last_def woc_effects_step woc_step_deps
  by (cases e) (auto simp: last_list_update last_conv_nth nth_list_update split: option.splits)

lemma woc_deps_last_reachable: "woc_deps_last (WithoutCleanup_run evs (WithoutCleanup_init c))"
proof (induction evs rule: rev_induct)
  case Nil
  show ?case by (simp add: woc_run_simps woc_deps_last_def WithoutCleanup_init_def)
next
  case (snoc e evs)
  then show ?case unfolding woc_run_snoc by (rule woc_deps_last_step)
qed

lemma woc_promises_step: "woc_promises s \<Longrightarrow> woc_promises (WithoutCleanup_step e s)"
  unfolding woc_promises_def woc_effects_step
  by (cases e) (auto dest!: in_set_updateD)

lemma woc_promises_reachable: "woc_promises (WithoutCleanup_run evs (WithoutCleanup_init c))"
proof (induction evs rule: rev_induct)
  case Nil
  show ?case by (simp add: woc_run_simps woc_promises_def WithoutCleanup_init_def)
next
  case (snoc e evs)
  then show ?case unfolding woc_run_snoc by (rule woc_promises_step)
qed

lemma wc_promises_step: "wc_promises s \<Longrightarrow> wc_promises (WithCleanup_step e s)"
proof (cases "effects s = []")
  case True
  assume "wc_promises s"
  with True show ?thesis
    unfolding wc_promises_def wc_effects_step by (cases e) auto
next
  case False
  assume "wc_promises s"
  with False last_index_mem [OF False] show ?thesis
    unfolding wc_promises_def wc_effects_step
    by (cases e) (auto dest!: in_set_updateD)
qed

lemma wc_promises_reachable: "wc_promises (WithCleanup_run evs (WithCleanup_init c))"
proof (induction evs rule: rev_induct)
  case Nil
  show ?case by (simp add: wc_run_simps wc_promises_def WithCleanup_init_def)
next
  case (snoc e evs)
  then show ?case unfolding wc_run_snoc by (rule wc_promises_step)
qed

section \<open>What is written to the console\<close>

lemma console_cleanup:
  "effects s \<noteq> [] \<Longrightarrow> console (WithCleanup_cleanup s) =
     console_log (green @ '' Cleanup for userId='' @ show_int (last (uids s))) (console s)"
proof -
  assume "effects s \<noteq> []"
  then obtain x xs where e: "effects s = x # xs" by (cases "effects s") auto
  have "(x # xs) ! length xs = last (x # xs)" by (simp add: last_conv_nth)
  moreover have "last (c_userId x # map c_userId xs) = c_userId (last (x # xs))"
    using last_map [of "x # xs" c_userId] by simp
  ultimately show ?thesis
    by (simp add: WithCleanup_cleanup_def uids_def Let_def e del: last.simps)
qed

lemma console_effect:
  "console (WithCleanup_effect u s) =
     console_log (green @ ''Fetching user '' @ show_int u @ ''...'')
       (console_log (green @ '' fetchUser called for userId='' @ show_int u)
         (console_log (green @ '' Effect running for userId='' @ show_int u) (console s)))"
  by (simp add: WithCleanup_effect_def fetchUser_def fetchUserData_def Let_def)

lemma no_sink_fields [simp]:
  "data (no_sink s) = data s" "loading (no_sink s) = loading s" "deps (no_sink s) = deps s"
  "unmounted (no_sink s) = unmounted s" "effects (no_sink s) = effects s"
  "console (no_sink s) = None"
  by (simp_all add: no_sink_def)

lemma console_log_None [simp]: "console_log l None = None"
  by (simp add: console_log_def)

lemma no_sink_updates:
  "no_sink (s\<lparr>deps := d\<rparr>) = (no_sink s)\<lparr>deps := d\<rparr>"
  "no_sink (s\<lparr>unmounted := b\<rparr>) = (no_sink s)\<lparr>unmounted := b\<rparr>"
  "no_sink (s\<lparr>effects := es\<rparr>) = (no_sink s)\<lparr>effects := es\<rparr>"
  "no_sink (s\<lparr>console := c\<rparr>) = no_sink s"
  "(no_sink s)\<lparr>console := None\<rparr> = no_sink s"
  by (simp_all add: no_sink_def)

lemma woc_effect_no_sink: "no_sink (WithoutCleanup_effect u s) = WithoutCleanup_effect u (no_sink s)"
  by (simp add: no_sink_def WithoutCleanup_effect_def fetchUserData_def Let_def)

lemma woc_then_no_sink: "no_sink (WithoutCleanup_then k v s) = WithoutCleanup_then k v (no_sink s)"
  by (simp add: no_sink_def WithoutCleanup_then_def Let_def)

lemma woc_step_no_sink: "no_sink (WithoutCleanup_step e s) = WithoutCleanup_step e (no_sink s)"
  by (cases e) (simp_all add: Let_def no_sink_updates woc_effect_no_sink woc_then_no_sink)

lemma wc_effect_no_sink: "no_sink (WithCleanup_effect u s) = WithCleanup_effect u (no_sink s)"
  by (simp add: no_sink_def WithCleanup_effect_def fetchUser_def fetchUserData_def Let_def)

lemma wc_cleanup_no_sink: "no_sink (WithCleanup_cleanup s) = WithCleanup_cleanup (no_sink s)"
  by (simp add: no_sink_def WithCleanup_cleanup_def Let_def split: list.splits)

lemma wc_then_no_sink: "no_sink (WithCleanup_then k v s) = WithCleanup_then k v (no_sink s)"
  by (simp add: no_sink_def WithCleanup_then_def Let_def)

lemma wc_step_no_sink: "no_sink (WithCleanup_step e s) = WithCleanup_step e (no_sink s)"
  by (cases e)
     (simp_all add: Let_def no_sink_updates wc_effect_no_sink wc_cleanup_no_sink wc_then_no_sink)

lemma states_no_sink:
  assumes "\<And>e s. no_sink (step e s) = step e (no_sink s)"
  shows "map no_sink (states step evs s) = states step evs (no_sink s)"
  by (induction evs arbitrary: s) (simp_all add: assms)

lemma display_no_sink: "display (no_sink s) = display s"
  by (simp add: display_def)

lemma map_display_no_sink: "map display (map no_sink xs) = map display xs"
  by (simp add: display_no_sink)

section \<open>Loading and data\<close>

lemma woc_step_loaded:
  "loading s \<or> data s \<noteq> None \<Longrightarrow>
     loading (WithoutCleanup_step e s) \<or> data (WithoutCleanup_step e s) \<noteq> None"
  by (cases e) (simp_all add: woc_effect_fields woc_then_fields Let_def)

lemma wc_step_loaded:
  "loading s \<or> data s \<noteq> None \<Longrightarrow>
     loading (WithCleanup_step e s) \<or> data (WithCleanup_step e s) \<noteq> None"
  by (cases e) (simp_all add: wc_effect_fields wc_cleanup_fields wc_then_fields Let_def)

lemma woc_run_loaded:
  "loading s \<or> data s \<noteq> None \<Longrightarrow>
     loading (WithoutCleanup_run evs s) \<or> data (WithoutCleanup_run evs s) \<noteq> None"
proof (induction evs arbitrary: s)
  case Nil
  then show ?case by (simp add: woc_run_simps)
next
  case (Cons e evs)
  from Cons.IH [OF woc_step_loaded [OF Cons.prems]] show ?case
    by (simp add: woc_run_simps del: WithoutCleanup_step.simps)
qed

lemma wc_run_loaded:
  "loading s \<or> data s \<noteq> None \<Longrightarrow>
     loading (WithCleanup_run evs s) \<or> data (WithCleanup_run evs s) \<noteq> None"
proof (induction evs arbitrary: s)
  case Nil
  then show ?case by (simp add: wc_run_simps)
next
  case (Cons e evs)
  from Cons.IH [OF wc_step_loaded [OF Cons.prems]] show ?case
    by (simp add: wc_run_simps del: WithCleanup_step.simps)
qed

lemma woc_step_unloads:
  "loading s \<Longrightarrow> \<not> loading (WithoutCleanup_step e s) \<Longrightarrow>
     (\<exists>k. e = Resolve k) \<and> data (WithoutCleanup_step e s) \<noteq> None"
  by (cases e) (simp_all add: woc_effect_fields woc_then_fields Let_def split: if_splits)

lemma wc_step_unloads:
  "loading s \<Longrightarrow> \<not> loading (WithCleanup_step e s) \<Longrightarrow>
     (\<exists>k. e = Resolve k) \<and> data (WithCleanup_step e s) \<noteq> None"
  by (cases e)
     (simp_all add: wc_effect_fields wc_cleanup_fields wc_then_fields Let_def split: if_splits)

section \<open>Only the result for the identifier in force is ever applied\<close>

lemma live_is_last:
  "\<forall>b\<in>set (butlast xs). \<not> b \<Longrightarrow> k < length xs \<Longrightarrow> xs ! k \<Longrightarrow> k = length xs - 1"
proof (rule ccontr)
  assume d: "\<forall>b\<in>set (butlast xs). \<not> b" and k: "k < length xs" and l: "xs ! k"
    and n: "k \<noteq> length xs - 1"
  from k n have kb: "k < length (butlast xs)" by simp
  then have "butlast xs ! k \<in> set (butlast xs)" by (rule nth_mem)
  with d have "\<not> butlast xs ! k" by blast
  moreover from kb have "butlast xs ! k = xs ! k" by (simp add: nth_butlast)
  ultimately show False using l by simp
qed

lemma wc_data_step:
  assumes bd: "butlast_dead s" and dl: "deps_last s" and pr: "wc_promises s"
  shows "data (WithCleanup_step e s) = data s \<or>
         (\<exists>u. deps s = Some u \<and>
              data (WithCleanup_step e s) =
                Some \<lparr>id' = u, name = ''User '' @ show_int u,
                      email = ''user'' @ show_int u @ ''@example.com''\<rparr>)"
proof (cases e)
  case (Resolve k)
  show ?thesis
  proof (cases "k < length (effects s) \<and> \<not> c_settled (effects s ! k) \<and> isMounted (effects s ! k)")
    case False
    then have "data (WithCleanup_step (Resolve k) s) = data s"
      unfolding wc_resolve_data by auto
    then show ?thesis unfolding Resolve by (rule disjI1)
  next
    case True
    then have k: "k < length (flags s)" and l: "flags s ! k" by (simp_all add: flags_def)
    from bd have "k = length (flags s) - 1"
      unfolding butlast_dead_def using k l by (rule live_is_last)
    then have kl: "k = length (effects s) - 1" by (simp add: flags_def)
    from True have ne: "effects s \<noteq> []" by auto
    with dl obtain u where u: "deps s = Some u" and lu: "last (uids s) = u"
      by (auto simp: deps_last_def uids_def split: option.splits)
    from ne lu kl have "c_userId (effects s ! k) = u"
      by (simp add: uids_def last_map last_conv_nth)
    moreover from pr True
    have "c_promise (effects s ! k) = fst (fetchUserData (c_userId (effects s ! k)) green None)"
      by (simp add: wc_promises_def)
    ultimately have "p_value (c_promise (effects s ! k)) =
        \<lparr>id' = u, name = ''User '' @ show_int u, email = ''user'' @ show_int u @ ''@example.com''\<rparr>"
      by (simp add: fst_fetchUserData)
    with True have "data (WithCleanup_step (Resolve k) s) =
        Some \<lparr>id' = u, name = ''User '' @ show_int u, email = ''user'' @ show_int u @ ''@example.com''\<rparr>"
      unfolding wc_resolve_data by simp
    with u show ?thesis unfolding Resolve by blast
  qed
qed (simp_all add: wc_effect_fields wc_cleanup_fields)

section \<open>Timing of the fetches\<close>

lemma single_fetch_timing:
  "display (component (advance WithoutCleanup_step i_promise i_settled T
      (at_time WithoutCleanup_step i_promise i_settled t0 (Render u) (WithoutCleanup_timed c))))
   = (if t0 + (if u = 1 then 3000 else 1000) \<le> T
      then (Some \<lparr>id' = u, name = ''User '' @ show_int u,
                  email = ''user'' @ show_int u @ ''@example.com''\<rparr>, False)
      else (None, True))"
  by (auto simp add: advance_def at_time_def fire_order_def WithoutCleanup_timed_def
        WithoutCleanup_init_def woc_effect_fields woc_then_fields display_def Let_def
        fst_fetchUserData)

lemma E2E_1_timeline:
  fixes g :: "cycle timed" and u :: "invocation timed"
  defines "g \<equiv> at_time WithCleanup_step c_promise c_settled 1000 (Render 2)
                 (at_time WithCleanup_step c_promise c_settled 0 (Render 1) (WithCleanup_timed None))"
  defines "u \<equiv> at_time WithoutCleanup_step i_promise i_settled 1000 (Render 2)
                 (at_time WithoutCleanup_step i_promise i_settled 0 (Render 1) (WithoutCleanup_timed None))"
  shows "display (component (advance WithCleanup_step c_promise c_settled 1999 g)) = (None, True)"
    and "display (component (advance WithoutCleanup_step i_promise i_settled 1999 u)) = (None, True)"
    and "display (component (advance WithCleanup_step c_promise c_settled 2000 g))
           = (Some \<lparr>id' = 2, name = ''User 2'', email = ''user2@example.com''\<rparr>, False)"
    and "display (component (advance WithoutCleanup_step i_promise i_settled 2000 u))
           = (Some \<lparr>id' = 2, name = ''User 2'', email = ''user2@example.com''\<rparr>, False)"
    and "display (component (advance WithCleanup_step c_promise c_settled 3000 g))
           = (Some \<lparr>id' = 2, name = ''User 2'', email = ''user2@example.com''\<rparr>, False)"
    and "display (component (advance WithoutCleanup_step i_promise i_settled 3000 u))
           = (Some \<lparr>id' = 1, name = ''User 1'', email = ''user1@example.com''\<rparr>, False)"
  unfolding g_def u_def
  by (simp_all add: advance_def at_time_def fire_order_def WithCleanup_timed_def
        WithoutCleanup_timed_def eval_defs upt_rec)


lemma single_fetch_timing_guarded:
  "display (component (advance WithCleanup_step c_promise c_settled T
      (at_time WithCleanup_step c_promise c_settled t0 (Render u) (WithCleanup_timed c))))
   = (if t0 + (if u = 1 then 3000 else 1000) \<le> T
      then (Some \<lparr>id' = u, name = ''User '' @ show_int u,
                  email = ''user'' @ show_int u @ ''@example.com''\<rparr>, False)
      else (None, True))"
  by (auto simp add: advance_def at_time_def fire_order_def WithCleanup_timed_def
        WithCleanup_init_def WithCleanup_cleanup_def wc_effect_fields wc_then_fields display_def
        Let_def fst_fetchUserData)

section \<open>The claims\<close>

text \<open>
  Claim C1. Take any history of a \<^verbatim>\<open>WithCleanup\<close> instance after which it is mounted with
  identifier \<open>A\<close>, and let the identifier change to \<open>B \<noteq> A\<close>. The fetch for \<open>A\<close> is the
  effect run \<open>kA\<close>, the fetch for \<open>B\<close> the effect run \<open>kB\<close>. Whatever fetches resolve before,
  between and after them (stale ones, repeated ones), if the fetch for \<open>B\<close> resolves and the
  fetch for \<open>A\<close> resolves after it, the component ends with the result for \<open>B\<close> and
  \<^verbatim>\<open>loading = false\<close>. Moreover, in every state the instance reaches, a step either leaves
  \<^verbatim>\<open>data\<close> as it is or sets it to the result for the identifier of the latest render: the
  result of a superseded fetch is never applied.
\<close>

theorem C1_guarded_correctness:
  fixes pre :: "event list" and c :: console and A B :: int and xs ys zs :: "nat list"
    and e :: event
  defines "t \<equiv> WithCleanup_run pre (WithCleanup_init c)"
  defines "kB \<equiv> length (effects t)"
  defines "kA \<equiv> kB - 1"
  shows "(\<not> unmounted t \<and> deps t = Some A \<and> A \<noteq> B \<longrightarrow>
           c_userId (effects t ! kA) = A \<and>
           display (WithCleanup_run (Render B # map Resolve (xs @ [kB] @ ys @ [kA] @ zs)) t)
           = (Some \<lparr>id' = B, name = ''User '' @ show_int B,
                     email = ''user'' @ show_int B @ ''@example.com''\<rparr>, False)) \<and>
         (data (WithCleanup_step e t) = data t \<or>
          (\<exists>u. deps t = Some u \<and>
               data (WithCleanup_step e t) =
                 Some \<lparr>id' = u, name = ''User '' @ show_int u,
                       email = ''user'' @ show_int u @ ''@example.com''\<rparr>))"
proof (intro conjI impI)
  have bd: "butlast_dead t" unfolding t_def by (rule butlast_dead_reachable)
  have dl: "deps_last t" unfolding t_def by (rule deps_last_reachable)
  have pr: "wc_promises t" unfolding t_def by (rule wc_promises_reachable)
  from bd dl pr show "data (WithCleanup_step e t) = data t \<or>
          (\<exists>u. deps t = Some u \<and>
               data (WithCleanup_step e t) =
                 Some \<lparr>id' = u, name = ''User '' @ show_int u,
                       email = ''user'' @ show_int u @ ''@example.com''\<rparr>)"
    by (rule wc_data_step)
  assume h: "\<not> unmounted t \<and> deps t = Some A \<and> A \<noteq> B"
  with dl have "effects t \<noteq> []" "last (uids t) = A"
    by (auto simp: deps_last_def uids_def)
  then show "c_userId (effects t ! kA) = A"
    unfolding kA_def kB_def by (simp add: uids_def last_map last_conv_nth)
  let ?s2 = "WithCleanup_step (Render B) t"
  let ?ks = "xs @ [kB] @ ys @ [kA] @ zs"
  from h have m: "\<not> unmounted t" and d: "deps t \<noteq> Some B" by simp_all
  have "last_live kB (p_value (fst (fetchUserData B green None))) ?s2"
    unfolding kB_def by (rule last_live_render [OF bd m d])
  moreover have "kB \<in> set ?ks" by simp
  ultimately have "data (WithCleanup_run (map Resolve ?ks) ?s2)
        = Some (p_value (fst (fetchUserData B green None)))
      \<and> \<not> loading (WithCleanup_run (map Resolve ?ks) ?s2)"
    by (rule last_live_wins)
  then show "display (WithCleanup_run (Render B # map Resolve ?ks) t)
         = (Some \<lparr>id' = B, name = ''User '' @ show_int B,
                   email = ''user'' @ show_int B @ ''@example.com''\<rparr>, False)"
    by (simp add: display_def wc_run_simps fst_fetchUserData del: WithCleanup_step.simps)
qed

theorem C1_guarded_correctness_witness:
  "\<not> unmounted (WithCleanup_run [Render 1] (WithCleanup_init None)) \<and>
   deps (WithCleanup_run [Render 1] (WithCleanup_init None)) = Some 1 \<and> (1::int) \<noteq> 2 \<and>
   display (WithCleanup_run [Render 2, Resolve 1, Resolve 0]
              (WithCleanup_run [Render 1] (WithCleanup_init None)))
     = (Some \<lparr>id' = 2, name = ''User 2'', email = ''user2@example.com''\<rparr>, False)"
proof -
  let ?t = "WithCleanup_run [Render 1] (WithCleanup_init None)"
  have h: "\<not> unmounted ?t" "deps ?t = Some 1" "(1::int) \<noteq> 2"
    by (simp_all add: eval_defs)
  have e: "length (effects ?t) = 1"
    by (simp add: eval_defs)
  from C1_guarded_correctness [where pre = "[Render 1]" and c = None and A = 1 and B = 2
      and xs = "[]" and ys = "[]" and zs = "[]"] h
  have "display (WithCleanup_run (Render 2 # map Resolve ([] @ [length (effects ?t)] @ [] @
            [length (effects ?t) - 1] @ [])) ?t)
        = (Some \<lparr>id' = 2, name = ''User '' @ show_int 2,
                  email = ''user'' @ show_int 2 @ ''@example.com''\<rparr>, False)"
    by blast
  with h show ?thesis
    unfolding e show_int_2 by (simp del: WithCleanup_step.simps)
qed

text \<open>
  Claim C2. The \<^verbatim>\<open>then\<close> callback of \<^verbatim>\<open>WithoutCleanup\<close> sets \<^verbatim>\<open>data\<close> to the result and
  \<^verbatim>\<open>loading\<close> to false whatever the state, and so does the resolution of any fetch in
  flight. Consequently, in the scenario of C1 (mounted with identifier \<open>A\<close>, whose fetch
  \<open>kA\<close> is in flight, then the identifier changes to \<open>B \<noteq> A\<close>), if the fetch for \<open>A\<close>
  resolves after the fetch for \<open>B\<close>, the component ends with the result for \<open>A\<close>.
\<close>

theorem C2_unguarded_defect:
  fixes pre :: "event list" and c :: console and A B :: int and xs ys :: "nat list"
    and s :: "invocation comp" and k :: nat and userData :: UserData
  defines "t \<equiv> WithoutCleanup_run pre (WithoutCleanup_init c)"
  defines "kB \<equiv> length (effects t)"
  defines "kA \<equiv> kB - 1"
  shows "display (WithoutCleanup_then k userData s) = (Some userData, False) \<and>
         (k < length (effects s) \<and> \<not> i_settled (effects s ! k) \<longrightarrow>
            display (WithoutCleanup_step (Resolve k) s)
              = (Some (p_value (i_promise (effects s ! k))), False)) \<and>
         (\<not> unmounted t \<and> deps t = Some A \<and> A \<noteq> B \<and>
          \<not> i_settled (effects t ! kA) \<and> kA \<notin> set (xs @ ys) \<longrightarrow>
          i_userId (effects t ! kA) = A \<and>
          display (WithoutCleanup_run (Render B # map Resolve (xs @ [kB] @ ys @ [kA])) t)
          = (Some \<lparr>id' = A, name = ''User '' @ show_int A,
                    email = ''user'' @ show_int A @ ''@example.com''\<rparr>, False))"
proof (intro conjI impI)
  show "display (WithoutCleanup_then k userData s) = (Some userData, False)"
    by (simp add: display_def woc_then_fields)
next
  assume "k < length (effects s) \<and> \<not> i_settled (effects s ! k)"
  then show "display (WithoutCleanup_step (Resolve k) s)
      = (Some (p_value (i_promise (effects s ! k))), False)"
    unfolding woc_resolve_display by simp
next
  assume h: "\<not> unmounted t \<and> deps t = Some A \<and> A \<noteq> B \<and>
          \<not> i_settled (effects t ! kA) \<and> kA \<notin> set (xs @ ys)"
  have "woc_deps_last t" unfolding t_def by (rule woc_deps_last_reachable)
  with h have ne: "effects t \<noteq> []" and la: "i_userId (last (effects t)) = A"
    by (auto simp: woc_deps_last_def)
  from ne have kA: "kA < length (effects t)" and lk: "last (effects t) = effects t ! kA"
    unfolding kA_def kB_def by (simp_all add: last_conv_nth)
  from la lk show uA: "i_userId (effects t ! kA) = A" by simp
  let ?p = "fst (fetchUserData A red None)"
  have "woc_promises t" unfolding t_def by (rule woc_promises_reachable)
  with kA uA have pA: "i_promise (effects t ! kA) = ?p"
    by (auto simp: woc_promises_def)
  let ?s2 = "WithoutCleanup_step (Render B) t"
  have "effects ?s2 = effects t @
      [\<lparr>i_userId = B, i_promise = fst (fetchUserData B red None), i_settled = False\<rparr>]"
    using h by (simp add: woc_render_fields del: WithoutCleanup_step.simps)
  with kA pA h have "pending kA ?p ?s2"
    by (simp add: pending_def nth_append)
  moreover from h kA have "kA \<notin> set (xs @ [kB] @ ys)" by (simp add: kB_def)
  ultimately have "pending kA ?p (WithoutCleanup_run (map Resolve (xs @ [kB] @ ys)) ?s2)"
    by (rule pending_run)
  then have "display (WithoutCleanup_step (Resolve kA)
               (WithoutCleanup_run (map Resolve (xs @ [kB] @ ys)) ?s2)) = (Some (p_value ?p), False)"
    unfolding woc_resolve_display by (simp add: pending_def)
  then show "display (WithoutCleanup_run (Render B # map Resolve (xs @ [kB] @ ys @ [kA])) t)
          = (Some \<lparr>id' = A, name = ''User '' @ show_int A,
                    email = ''user'' @ show_int A @ ''@example.com''\<rparr>, False)"
    by (simp add: woc_run_simps fst_fetchUserData del: WithoutCleanup_step.simps)
qed

theorem C2_unguarded_defect_witness:
  "(0::nat) < length (effects (WithoutCleanup_run [Render 1] (WithoutCleanup_init None))) \<and>
   \<not> i_settled (effects (WithoutCleanup_run [Render 1] (WithoutCleanup_init None)) ! 0) \<and>
   \<not> unmounted (WithoutCleanup_run [Render 1] (WithoutCleanup_init None)) \<and>
   deps (WithoutCleanup_run [Render 1] (WithoutCleanup_init None)) = Some 1 \<and> (1::int) \<noteq> 2 \<and>
   (0::nat) \<notin> set ([] @ []) \<and>
   display (WithoutCleanup_step (Resolve 0) (WithoutCleanup_run [Render 1] (WithoutCleanup_init None)))
     = (Some \<lparr>id' = 1, name = ''User 1'', email = ''user1@example.com''\<rparr>, False) \<and>
   display (WithoutCleanup_run [Render 2, Resolve 1, Resolve 0]
              (WithoutCleanup_run [Render 1] (WithoutCleanup_init None)))
     = (Some \<lparr>id' = 1, name = ''User 1'', email = ''user1@example.com''\<rparr>, False)"
proof -
  let ?t = "WithoutCleanup_run [Render 1] (WithoutCleanup_init None)"
  have e: "length (effects ?t) = 1"
    by (simp add: eval_defs)
  have h: "(0::nat) < length (effects ?t)" "\<not> i_settled (effects ?t ! 0)" "\<not> unmounted ?t"
      "deps ?t = Some 1" "(1::int) \<noteq> 2" "(0::nat) \<notin> set ([] @ [])"
    by (simp_all add: eval_defs)
  have p: "p_value (i_promise (effects ?t ! 0))
      = \<lparr>id' = 1, name = ''User 1'', email = ''user1@example.com''\<rparr>"
    by (simp add: eval_defs)
  from C2_unguarded_defect [where k = 0 and s = ?t and pre = "[Render 1]" and c = None
      and A = 1 and B = 2 and xs = "[]" and ys = "[]"] h show ?thesis
    unfolding e show_int_1 p by (simp del: WithoutCleanup_step.simps)
qed

text \<open>
  Claim C3. In every state a \<^verbatim>\<open>WithCleanup\<close> instance reaches, at most one effect run has
  its \<^verbatim>\<open>isMounted\<close> flag true. When a render changes the identifier, the step is the
  effect applied to the state the cleanup leaves, and in that state, before the new effect
  run and its fetch start, every flag is false already.
\<close>

theorem C3_guarded_exclusivity:
  fixes evs :: "event list" and c :: console and userId :: int
  defines "s \<equiv> WithCleanup_run evs (WithCleanup_init c)"
  shows "length (filter isMounted (effects s)) \<le> 1 \<and>
         (\<not> unmounted s \<and> deps s \<noteq> Some userId \<longrightarrow>
           WithCleanup_step (Render userId) s
             = WithCleanup_effect userId (WithCleanup_cleanup (s\<lparr>deps := Some userId\<rparr>))
           \<and> filter isMounted (effects (WithCleanup_cleanup (s\<lparr>deps := Some userId\<rparr>))) = [])"
proof (intro conjI impI)
  have bd: "butlast_dead s" unfolding s_def by (rule butlast_dead_reachable)
  then show "length (filter isMounted (effects s)) \<le> 1"
    unfolding filter_isMounted_flags butlast_dead_def by (rule filter_butlast_dead)
  from bd show "filter isMounted (effects (WithCleanup_cleanup (s\<lparr>deps := Some userId\<rparr>))) = []"
    by (intro cleanup_all_dead) simp
  assume "\<not> unmounted s \<and> deps s \<noteq> Some userId"
  then show "WithCleanup_step (Render userId) s
             = WithCleanup_effect userId (WithCleanup_cleanup (s\<lparr>deps := Some userId\<rparr>))"
    by simp
qed

theorem C3_guarded_exclusivity_witness:
  "\<not> unmounted (WithCleanup_run [Render 1] (WithCleanup_init None)) \<and>
   deps (WithCleanup_run [Render 1] (WithCleanup_init None)) \<noteq> Some 2 \<and>
   length (filter isMounted (effects (WithCleanup_run [Render 1] (WithCleanup_init None)))) \<le> 1 \<and>
   filter isMounted (effects (WithCleanup_cleanup
     ((WithCleanup_run [Render 1] (WithCleanup_init None))\<lparr>deps := Some 2\<rparr>))) = []"
proof -
  let ?s = "WithCleanup_run [Render 1] (WithCleanup_init None)"
  have h: "\<not> unmounted ?s" "deps ?s \<noteq> Some 2"
    by (simp_all add: eval_defs)
  from C3_guarded_exclusivity [of "[Render 1]" None 2] h show ?thesis
    by blast
qed

text \<open>
  Claim C4. A call of \<^verbatim>\<open>fetchUserData\<close> logs one line and returns a promise whose timer has
  delay 3000 for identifier 1 and 1000 for any other identifier (so for 2), and which
  resolves with the object \<^verbatim>\<open>{id, name: "User <id>", email: "user<id>@example.com"}\<close>.
  Promise, delay and result do not depend on the console nor, for delay and result, on the
  prefix: they are a function of the identifier alone. In every run of either component,
  each effect run holds exactly the promise of its own identifier, and the resolution of a
  fetch in flight hands the result for that identifier to the callback. On the timer queue,
  a component whose first render happens at time \<open>t0\<close> with identifier \<open>u\<close> is still loading
  at every time before \<open>t0\<close> plus the delay for \<open>u\<close>, and shows the result for \<open>u\<close> from then on.
\<close>

theorem C4_fetchUserData_contract:
  fixes evs :: "event list" and c c' :: console and userId u :: int and msg msg' :: string
    and k k' t0 T :: nat
  defines "s \<equiv> WithoutCleanup_run evs (WithoutCleanup_init c)"
  defines "t \<equiv> WithCleanup_run evs (WithCleanup_init c)"
  shows "fetchUserData userId msg c =
           (\<lparr>p_delay = (if userId = 1 then 3000 else 1000),
             p_log = msg @ ''Received data for user '' @ show_int userId,
             p_value = \<lparr>id' = userId, name = ''User '' @ show_int userId,
                        email = ''user'' @ show_int userId @ ''@example.com''\<rparr>\<rparr>,
            console_log (msg @ ''Fetching user '' @ show_int userId @ ''...'') c) \<and>
         p_delay (fst (fetchUserData 1 msg c)) = 3000 \<and>
         p_delay (fst (fetchUserData 2 msg c)) = 1000 \<and>
         fst (fetchUserData userId msg c') = fst (fetchUserData userId msg c) \<and>
         p_delay (fst (fetchUserData userId msg' c')) = p_delay (fst (fetchUserData userId msg c)) \<and>
         p_value (fst (fetchUserData userId msg' c')) = p_value (fst (fetchUserData userId msg c)) \<and>
         display (component (advance WithoutCleanup_step i_promise i_settled T
             (at_time WithoutCleanup_step i_promise i_settled t0 (Render u) (WithoutCleanup_timed c))))
           = (if t0 + (if u = 1 then 3000 else 1000) \<le> T
              then (Some \<lparr>id' = u, name = ''User '' @ show_int u,
                          email = ''user'' @ show_int u @ ''@example.com''\<rparr>, False)
              else (None, True)) \<and>
         display (component (advance WithCleanup_step c_promise c_settled T
             (at_time WithCleanup_step c_promise c_settled t0 (Render u) (WithCleanup_timed c))))
           = (if t0 + (if u = 1 then 3000 else 1000) \<le> T
              then (Some \<lparr>id' = u, name = ''User '' @ show_int u,
                          email = ''user'' @ show_int u @ ''@example.com''\<rparr>, False)
              else (None, True)) \<and>
         (k < length (effects s) \<longrightarrow>
            i_promise (effects s ! k) = fst (fetchUserData (i_userId (effects s ! k)) red None)) \<and>
         (k' < length (effects t) \<longrightarrow>
            c_promise (effects t ! k') = fst (fetchUserData (c_userId (effects t ! k')) green None)) \<and>
         (k < length (effects s) \<and> \<not> i_settled (effects s ! k) \<longrightarrow>
            display (WithoutCleanup_step (Resolve k) s) =
              (Some \<lparr>id' = i_userId (effects s ! k),
                      name = ''User '' @ show_int (i_userId (effects s ! k)),
                      email = ''user'' @ show_int (i_userId (effects s ! k)) @ ''@example.com''\<rparr>,
               False))"
proof -
  have 1: "fetchUserData userId msg c =
           (\<lparr>p_delay = (if userId = 1 then 3000 else 1000),
             p_log = msg @ ''Received data for user '' @ show_int userId,
             p_value = \<lparr>id' = userId, name = ''User '' @ show_int userId,
                        email = ''user'' @ show_int userId @ ''@example.com''\<rparr>\<rparr>,
            console_log (msg @ ''Fetching user '' @ show_int userId @ ''...'') c)"
    by (simp add: fetchUserData_def Let_def)
  have 2: "p_delay (fst (fetchUserData 1 msg c)) = 3000"
    "p_delay (fst (fetchUserData 2 msg c)) = 1000"
    by (simp_all add: fst_fetchUserData)
  have 3: "fst (fetchUserData userId msg c') = fst (fetchUserData userId msg c)"
    "p_delay (fst (fetchUserData userId msg' c')) = p_delay (fst (fetchUserData userId msg c))"
    "p_value (fst (fetchUserData userId msg' c')) = p_value (fst (fetchUserData userId msg c))"
    by (simp_all add: fst_fetchUserData)
  have "woc_promises s" unfolding s_def by (rule woc_promises_reachable)
  then have 4: "k < length (effects s) \<longrightarrow>
            i_promise (effects s ! k) = fst (fetchUserData (i_userId (effects s ! k)) red None)"
    by (simp add: woc_promises_def)
  have "wc_promises t" unfolding t_def by (rule wc_promises_reachable)
  then have 5: "k' < length (effects t) \<longrightarrow>
            c_promise (effects t ! k') = fst (fetchUserData (c_userId (effects t ! k')) green None)"
    by (simp add: wc_promises_def)
  from 4 have 6: "k < length (effects s) \<and> \<not> i_settled (effects s ! k) \<longrightarrow>
            display (WithoutCleanup_step (Resolve k) s) =
              (Some \<lparr>id' = i_userId (effects s ! k),
                      name = ''User '' @ show_int (i_userId (effects s ! k)),
                      email = ''user'' @ show_int (i_userId (effects s ! k)) @ ''@example.com''\<rparr>,
               False)"
    unfolding woc_resolve_display by (simp add: fst_fetchUserData)
  note 7 = single_fetch_timing [of T t0 u c] single_fetch_timing_guarded [of T t0 u c]
  from 1 2 3 4 5 6 7 show ?thesis by blast
qed

theorem C4_fetchUserData_contract_witness:
  "(0::nat) < length (effects (WithoutCleanup_run [Render 1, Render 2] (WithoutCleanup_init None))) \<and>
   \<not> i_settled (effects (WithoutCleanup_run [Render 1, Render 2] (WithoutCleanup_init None)) ! 0) \<and>
   (1::nat) < length (effects (WithCleanup_run [Render 1, Render 2] (WithCleanup_init None))) \<and>
   i_userId (effects (WithoutCleanup_run [Render 1, Render 2] (WithoutCleanup_init None)) ! 0) = 1 \<and>
   c_userId (effects (WithCleanup_run [Render 1, Render 2] (WithCleanup_init None)) ! 1) = 2 \<and>
   p_delay (i_promise (effects (WithoutCleanup_run [Render 1, Render 2] (WithoutCleanup_init None)) ! 0))
     = 3000 \<and>
   p_delay (c_promise (effects (WithCleanup_run [Render 1, Render 2] (WithCleanup_init None)) ! 1))
     = 1000 \<and>
   display (WithoutCleanup_step (Resolve 0)
             (WithoutCleanup_run [Render 1, Render 2] (WithoutCleanup_init None)))
     = (Some \<lparr>id' = 1, name = ''User 1'', email = ''user1@example.com''\<rparr>, False)"
proof -
  let ?s = "WithoutCleanup_run [Render 1, Render 2] (WithoutCleanup_init None)"
  let ?t = "WithCleanup_run [Render 1, Render 2] (WithCleanup_init None)"
  have h: "(0::nat) < length (effects ?s)" "\<not> i_settled (effects ?s ! 0)"
      "(1::nat) < length (effects ?t)"
    by (simp_all add: eval_defs)
  have u: "i_userId (effects ?s ! 0) = 1" "c_userId (effects ?t ! 1) = 2"
    by (simp_all add: eval_defs)
  from C4_fetchUserData_contract [where evs = "[Render 1, Render 2]" and c = None
      and k = 0 and k' = 1 and userId = 1 and msg = red and msg' = green and c' = None] h
  show ?thesis
    unfolding u show_int_1 by (simp add: fst_fetchUserData del: WithoutCleanup_step.simps)
qed

text \<open>
  Claim C5. The \<^verbatim>\<open>then\<close> callback of the effect run \<open>k\<close> of \<^verbatim>\<open>WithCleanup\<close> reads the flag of
  its own run. If the flag is true it sets \<^verbatim>\<open>data\<close> to the result and \<^verbatim>\<open>loading\<close> to false.
  If the flag is false it changes nothing but the console: \<^verbatim>\<open>data\<close> and \<^verbatim>\<open>loading\<close>, and
  every other field, are as they were. The same holds for the resolution of a fetch in
  flight, which runs that callback.
\<close>

theorem C5_guarded_apply_or_discard:
  "(isMounted (effects s ! k) \<longrightarrow>
      display (WithCleanup_then k userData s) = (Some userData, False)) \<and>
   (\<not> isMounted (effects s ! k) \<longrightarrow>
      display (WithCleanup_then k userData s) = display s \<and>
      (WithCleanup_then k userData s)\<lparr>console := console s\<rparr> = s) \<and>
   (k < length (effects s) \<and> \<not> c_settled (effects s ! k) \<longrightarrow>
      display (WithCleanup_step (Resolve k) s) =
        (if isMounted (effects s ! k) then (Some (p_value (c_promise (effects s ! k))), False)
         else display s))"
proof (intro conjI impI)
  assume "isMounted (effects s ! k)"
  then show "display (WithCleanup_then k userData s) = (Some userData, False)"
    by (simp add: WithCleanup_then_def display_def Let_def)
next
  assume d: "\<not> isMounted (effects s ! k)"
  then show "display (WithCleanup_then k userData s) = display s"
    by (simp add: WithCleanup_then_def display_def Let_def)
  from d show "(WithCleanup_then k userData s)\<lparr>console := console s\<rparr> = s"
    by (simp add: WithCleanup_then_def Let_def)
next
  assume "k < length (effects s) \<and> \<not> c_settled (effects s ! k)"
  then show "display (WithCleanup_step (Resolve k) s) =
        (if isMounted (effects s ! k) then (Some (p_value (c_promise (effects s ! k))), False)
         else display s)"
    unfolding display_def wc_resolve_data wc_resolve_loading by simp
qed

theorem C5_guarded_apply_or_discard_witness:
  "isMounted (effects (WithCleanup_run [Render 1, Render 2] (WithCleanup_init None)) ! 1) \<and>
   display (WithCleanup_then 1 \<lparr>id' = 2, name = ''User 2'', email = ''user2@example.com''\<rparr>
              (WithCleanup_run [Render 1, Render 2] (WithCleanup_init None)))
     = (Some \<lparr>id' = 2, name = ''User 2'', email = ''user2@example.com''\<rparr>, False) \<and>
   \<not> isMounted (effects (WithCleanup_run [Render 1, Render 2] (WithCleanup_init None)) ! 0) \<and>
   display (WithCleanup_then 0 \<lparr>id' = 1, name = ''User 1'', email = ''user1@example.com''\<rparr>
              (WithCleanup_run [Render 1, Render 2] (WithCleanup_init None)))
     = (None, True) \<and>
   (0::nat) < length (effects (WithCleanup_run [Render 1, Render 2] (WithCleanup_init None))) \<and>
   \<not> c_settled (effects (WithCleanup_run [Render 1, Render 2] (WithCleanup_init None)) ! 0) \<and>
   display (WithCleanup_step (Resolve 0) (WithCleanup_run [Render 1, Render 2] (WithCleanup_init None)))
     = (None, True)"
proof -
  let ?s = "WithCleanup_run [Render 1, Render 2] (WithCleanup_init None)"
  have live: "isMounted (effects ?s ! 1)" and dead: "\<not> isMounted (effects ?s ! 0)"
    and d: "display ?s = (None, True)"
    and p: "(0::nat) < length (effects ?s)" "\<not> c_settled (effects ?s ! 0)"
    by (simp_all add: eval_defs)
  from C5_guarded_apply_or_discard [of ?s 1] C5_guarded_apply_or_discard [of ?s 0] live dead d p
  show ?thesis by (simp del: WithCleanup_step.simps)
qed

text \<open>
  Claim C6, as stated, fails: \<^verbatim>\<open>WithCleanup\<close> passes \<^verbatim>\<open>then\<close> a fulfilment callback only and
  has no error state. After the first render the fetch 0 is the live one; if its promise
  rejects, \<^verbatim>\<open>loading\<close> is still true and \<^verbatim>\<open>data\<close> still absent, and no later settlement of
  that fetch changes this.
\<close>

theorem C6_guarded_failure_counterexample:
  "isMounted (effects (WithCleanup_run [Render 1] (WithCleanup_init None)) ! 0) \<and>
   display (WithCleanup_run [Render 1, Reject 0] (WithCleanup_init None)) = (None, True) \<and>
   display (WithCleanup_run [Render 1, Reject 0, Resolve 0, Reject 0] (WithCleanup_init None))
     = (None, True)"
  by (simp add: eval_defs)

text \<open>
  Claim C6, amended. A rejection of the promise of any fetch of \<^verbatim>\<open>WithCleanup\<close>, live or
  superseded, runs no callback: \<^verbatim>\<open>data\<close> and \<^verbatim>\<open>loading\<close>, the flags and the console are
  unchanged. For a superseded fetch this is what a stale success does to \<^verbatim>\<open>data\<close> and
  \<^verbatim>\<open>loading\<close> as well; for the live fetch \<^verbatim>\<open>loading\<close> stays as it was.
\<close>

theorem C6_guarded_failure_ignored:
  "display (WithCleanup_step (Reject k) s) = display s \<and>
   flags (WithCleanup_step (Reject k) s) = flags s \<and>
   console (WithCleanup_step (Reject k) s) = console s \<and>
   (\<not> isMounted (effects s ! k) \<longrightarrow> display (WithCleanup_step (Resolve k) s) = display s)"
  by (simp add: flags_step wc_resolve_data wc_resolve_loading display_def
           del: WithCleanup_step.simps)
     (simp add: display_def)

theorem C6_guarded_failure_ignored_witness:
  "\<not> isMounted (effects (WithCleanup_run [Render 1, Render 2] (WithCleanup_init None)) ! 0) \<and>
   display (WithCleanup_run [Render 1, Render 2, Reject 0] (WithCleanup_init None)) = (None, True) \<and>
   display (WithCleanup_run [Render 1, Render 2, Resolve 0] (WithCleanup_init None)) = (None, True)"
proof -
  let ?s = "WithCleanup_run [Render 1, Render 2] (WithCleanup_init None)"
  have dead: "\<not> isMounted (effects ?s ! 0)" and d: "display ?s = (None, True)"
    by (simp_all add: eval_defs)
  from C6_guarded_failure_ignored [of 0 ?s] dead d
  have "display (WithCleanup_step (Reject 0) ?s) = (None, True)"
    and "display (WithCleanup_step (Resolve 0) ?s) = (None, True)"
    by (simp_all del: WithCleanup_step.simps)
  with dead show ?thesis
    by (simp add: WithCleanup_run_def del: WithCleanup_step.simps)
qed

text \<open>
  Claim C7. From any state of a \<^verbatim>\<open>WithCleanup\<close> instance, a flag that is false stays false
  through every further sequence of events. When a render changes the identifier of a
  mounted instance from \<open>prev\<close> to \<open>u\<close>, the cleanup of the previous effect run is logged
  before anything of the new run (the effect, \<^verbatim>\<open>fetchUser\<close>, the fetch), and the flags after
  the step are the old ones with the last set false, followed by the true flag of the new run.
\<close>

theorem C7_flag_never_revived:
  fixes pre evs :: "event list" and c :: console and s :: "cycle comp" and k :: nat
    and prev u :: int
  defines "t \<equiv> WithCleanup_run pre (WithCleanup_init c)"
  shows "(k < length (effects s) \<and> \<not> isMounted (effects s ! k) \<longrightarrow>
            k < length (effects (WithCleanup_run evs s)) \<and>
            \<not> isMounted (effects (WithCleanup_run evs s) ! k)) \<and>
         (\<not> unmounted t \<and> deps t = Some prev \<and> prev \<noteq> u \<longrightarrow>
            console (WithCleanup_step (Render u) t) =
              foldl (\<lambda>c l. console_log l c) (console t)
                [green @ '' Cleanup for userId='' @ show_int prev,
                 green @ '' Effect running for userId='' @ show_int u,
                 green @ '' fetchUser called for userId='' @ show_int u,
                 green @ ''Fetching user '' @ show_int u @ ''...''] \<and>
            flags (WithCleanup_step (Render u) t) = (flags t)[length (flags t) - 1 := False] @ [True])"
proof (intro conjI impI)
  assume "k < length (effects s) \<and> \<not> isMounted (effects s ! k)"
  then have "k < length (flags s)" "\<not> flags s ! k" by (simp_all add: flags_def)
  from flag_stays_false_run [OF this, of evs]
  show "k < length (effects (WithCleanup_run evs s))"
    "\<not> isMounted (effects (WithCleanup_run evs s) ! k)"
    by (auto simp: flags_def)
next
  assume h: "\<not> unmounted t \<and> deps t = Some prev \<and> prev \<noteq> u"
  have "deps_last t" unfolding t_def by (rule deps_last_reachable)
  with h have ne: "effects t \<noteq> []" and l: "last (uids t) = prev"
    by (auto simp: deps_last_def uids_def)
  from h have st: "WithCleanup_step (Render u) t
      = WithCleanup_effect u (WithCleanup_cleanup (t\<lparr>deps := Some u\<rparr>))"
    by auto
  have "console (WithCleanup_cleanup (t\<lparr>deps := Some u\<rparr>)) =
     console_log (green @ '' Cleanup for userId='' @ show_int prev) (console t)"
    using console_cleanup [of "t\<lparr>deps := Some u\<rparr>"] ne l by (simp add: uids_def)
  then show "console (WithCleanup_step (Render u) t) =
              foldl (\<lambda>c l. console_log l c) (console t)
                [green @ '' Cleanup for userId='' @ show_int prev,
                 green @ '' Effect running for userId='' @ show_int u,
                 green @ '' fetchUser called for userId='' @ show_int u,
                 green @ ''Fetching user '' @ show_int u @ ''...'']"
    unfolding st console_effect by simp
  from h show "flags (WithCleanup_step (Render u) t)
      = (flags t)[length (flags t) - 1 := False] @ [True]"
    unfolding flags_step by simp
qed

theorem C7_flag_never_revived_witness:
  "(0::nat) < length (effects (WithCleanup_run [Render 1, Render 2] (WithCleanup_init (Some [])))) \<and>
   \<not> isMounted (effects (WithCleanup_run [Render 1, Render 2] (WithCleanup_init (Some []))) ! 0) \<and>
   \<not> isMounted (effects (WithCleanup_run [Resolve 0, Render 1, Resolve 1, Unmount]
        (WithCleanup_run [Render 1, Render 2] (WithCleanup_init (Some [])))) ! 0) \<and>
   \<not> unmounted (WithCleanup_run [Render 1, Render 2] (WithCleanup_init (Some []))) \<and>
   deps (WithCleanup_run [Render 1, Render 2] (WithCleanup_init (Some []))) = Some 2 \<and>
   (2::int) \<noteq> 1 \<and>
   flags (WithCleanup_step (Render 1) (WithCleanup_run [Render 1, Render 2] (WithCleanup_init (Some []))))
     = [False, False, True]"
proof -
  let ?s = "WithCleanup_run [Render 1, Render 2] (WithCleanup_init (Some []))"
  have h: "(0::nat) < length (effects ?s)" "\<not> isMounted (effects ?s ! 0)"
      "\<not> unmounted ?s" "deps ?s = Some 2" "(2::int) \<noteq> 1"
    by (simp_all add: eval_defs)
  have f: "flags ?s = [False, True]"
    by (simp add: flags_def eval_defs)
  from C7_flag_never_revived [where s = ?s and k = 0
      and evs = "[Resolve 0, Render 1, Resolve 1, Unmount]"
      and pre = "[Render 1, Render 2]" and c = "Some []" and prev = 2 and u = 1] h
  show ?thesis
    unfolding f by (simp del: WithCleanup_step.simps)
qed

text \<open>
  Claim C8. The trace sink is observational: for every sequence of events and every console
  to start with, the sequence of (\<^verbatim>\<open>data\<close>, \<^verbatim>\<open>loading\<close>) pairs each component passes through
  is the one of the run without a sink, and the final state of the run with a sink, its
  console removed, is the final state of the run without one.
\<close>

theorem C8_sink_is_observational:
  "map display (states WithoutCleanup_step evs (WithoutCleanup_init c))
     = map display (states WithoutCleanup_step evs (WithoutCleanup_init None)) \<and>
   map display (states WithCleanup_step evs (WithCleanup_init c))
     = map display (states WithCleanup_step evs (WithCleanup_init None)) \<and>
   no_sink (WithoutCleanup_run evs (WithoutCleanup_init c))
     = WithoutCleanup_run evs (WithoutCleanup_init None) \<and>
   no_sink (WithCleanup_run evs (WithCleanup_init c))
     = WithCleanup_run evs (WithCleanup_init None)"
proof (intro conjI)
  have i1: "no_sink (WithoutCleanup_init c) = WithoutCleanup_init None"
    by (simp add: no_sink_def WithoutCleanup_init_def)
  have i2: "no_sink (WithCleanup_init c) = WithCleanup_init None"
    by (simp add: no_sink_def WithCleanup_init_def)
  have "map display (states WithoutCleanup_step evs (WithoutCleanup_init c))
      = map display (map no_sink (states WithoutCleanup_step evs (WithoutCleanup_init c)))"
    by (simp only: map_display_no_sink)
  also have "\<dots> = map display (states WithoutCleanup_step evs (WithoutCleanup_init None))"
    by (simp only: states_no_sink [of WithoutCleanup_step, OF woc_step_no_sink] i1)
  finally show "map display (states WithoutCleanup_step evs (WithoutCleanup_init c))
     = map display (states WithoutCleanup_step evs (WithoutCleanup_init None))" .
  have "map display (states WithCleanup_step evs (WithCleanup_init c))
      = map display (map no_sink (states WithCleanup_step evs (WithCleanup_init c)))"
    by (simp only: map_display_no_sink)
  also have "\<dots> = map display (states WithCleanup_step evs (WithCleanup_init None))"
    by (simp only: states_no_sink [of WithCleanup_step, OF wc_step_no_sink] i2)
  finally show "map display (states WithCleanup_step evs (WithCleanup_init c))
     = map display (states WithCleanup_step evs (WithCleanup_init None))" .
  have "no_sink (WithoutCleanup_run evs s) = WithoutCleanup_run evs (no_sink s)" for s
    by (induction evs arbitrary: s)
       (simp_all add: woc_run_simps woc_step_no_sink del: WithoutCleanup_step.simps)
  then show "no_sink (WithoutCleanup_run evs (WithoutCleanup_init c))
      = WithoutCleanup_run evs (WithoutCleanup_init None)"
    by (simp only: i1)
  have "no_sink (WithCleanup_run evs s) = WithCleanup_run evs (no_sink s)" for s
    by (induction evs arbitrary: s)
       (simp_all add: wc_run_simps wc_step_no_sink del: WithCleanup_step.simps)
  then show "no_sink (WithCleanup_run evs (WithCleanup_init c))
      = WithCleanup_run evs (WithCleanup_init None)"
    by (simp only: i2)
qed

text \<open>
  Claim C9. Running the \<^verbatim>\<open>then\<close> callback of a fetch a second time with the same result
  leaves \<^verbatim>\<open>data\<close> and \<^verbatim>\<open>loading\<close> as the first run left them, in both components; and a
  second resolution event for the same fetch changes nothing at all, since the promise has
  settled.
\<close>

theorem C9_resolution_idempotent:
  "display (WithoutCleanup_then k userData (WithoutCleanup_then k userData s))
     = display (WithoutCleanup_then k userData s) \<and>
   display (WithCleanup_then k' userData (WithCleanup_then k' userData t))
     = display (WithCleanup_then k' userData t) \<and>
   WithoutCleanup_step (Resolve k) (WithoutCleanup_step (Resolve k) s)
     = WithoutCleanup_step (Resolve k) s \<and>
   WithCleanup_step (Resolve k') (WithCleanup_step (Resolve k') t)
     = WithCleanup_step (Resolve k') t"
proof (intro conjI)
  show "display (WithoutCleanup_then k userData (WithoutCleanup_then k userData s))
     = display (WithoutCleanup_then k userData s)"
    by (simp add: display_def woc_then_fields)
  show "display (WithCleanup_then k' userData (WithCleanup_then k' userData t))
     = display (WithCleanup_then k' userData t)"
    by (simp add: display_def wc_then_fields)
  show "WithoutCleanup_step (Resolve k) (WithoutCleanup_step (Resolve k) s)
      = WithoutCleanup_step (Resolve k) s"
    by (rule woc_resolve_noop [OF woc_resolve_settles])
  show "WithCleanup_step (Resolve k') (WithCleanup_step (Resolve k') t)
      = WithCleanup_step (Resolve k') t"
    by (rule wc_resolve_noop [OF wc_resolve_settles])
qed

text \<open>
  Claim C10. Both components start with \<^verbatim>\<open>data\<close> absent and \<^verbatim>\<open>loading\<close> true. In every state
  either of them reaches, \<^verbatim>\<open>loading = false\<close> implies that \<^verbatim>\<open>data\<close> is present. From any
  state, a step that turns \<^verbatim>\<open>loading\<close> from true to false is the resolution of a fetch, and
  it leaves \<^verbatim>\<open>data\<close> present.
\<close>

theorem C10_loaded_implies_data:
  "display (WithoutCleanup_init c) = (None, True) \<and>
   display (WithCleanup_init c) = (None, True) \<and>
   (\<not> loading (WithoutCleanup_run evs (WithoutCleanup_init c)) \<longrightarrow>
      data (WithoutCleanup_run evs (WithoutCleanup_init c)) \<noteq> None) \<and>
   (\<not> loading (WithCleanup_run evs (WithCleanup_init c)) \<longrightarrow>
      data (WithCleanup_run evs (WithCleanup_init c)) \<noteq> None) \<and>
   (loading s \<and> \<not> loading (WithoutCleanup_step e s) \<longrightarrow>
      (\<exists>k. e = Resolve k) \<and> data (WithoutCleanup_step e s) \<noteq> None) \<and>
   (loading t \<and> \<not> loading (WithCleanup_step e t) \<longrightarrow>
      (\<exists>k. e = Resolve k) \<and> data (WithCleanup_step e t) \<noteq> None)"
proof -
  have "loading (WithoutCleanup_run evs (WithoutCleanup_init c)) \<or>
        data (WithoutCleanup_run evs (WithoutCleanup_init c)) \<noteq> None"
    by (rule woc_run_loaded) (simp add: WithoutCleanup_init_def)
  moreover have "loading (WithCleanup_run evs (WithCleanup_init c)) \<or>
        data (WithCleanup_run evs (WithCleanup_init c)) \<noteq> None"
    by (rule wc_run_loaded) (simp add: WithCleanup_init_def)
  moreover have "display (WithoutCleanup_init c) = (None, True)"
    "display (WithCleanup_init c) = (None, True)"
    by (simp_all add: display_def WithoutCleanup_init_def WithCleanup_init_def)
  ultimately show ?thesis
    using woc_step_unloads [of s e] wc_step_unloads [of t e] by blast
qed

theorem C10_loaded_implies_data_witness:
  "\<not> loading (WithoutCleanup_run [Render 1, Resolve 0] (WithoutCleanup_init None)) \<and>
   data (WithoutCleanup_run [Render 1, Resolve 0] (WithoutCleanup_init None)) \<noteq> None \<and>
   \<not> loading (WithCleanup_run [Render 1, Resolve 0] (WithCleanup_init None)) \<and>
   data (WithCleanup_run [Render 1, Resolve 0] (WithCleanup_init None)) \<noteq> None \<and>
   loading (WithoutCleanup_run [Render 1] (WithoutCleanup_init None)) \<and>
   loading (WithCleanup_run [Render 1] (WithCleanup_init None))"
proof -
  let ?s = "WithoutCleanup_run [Render 1] (WithoutCleanup_init None)"
  let ?t = "WithCleanup_run [Render 1] (WithCleanup_init None)"
  have l: "loading ?s" "loading ?t"
    by (simp_all add: eval_defs)
  have n: "\<not> loading (WithoutCleanup_run [Render 1, Resolve 0] (WithoutCleanup_init None))"
      "\<not> loading (WithCleanup_run [Render 1, Resolve 0] (WithCleanup_init None))"
    by (simp_all add: eval_defs)
  have r: "WithoutCleanup_step (Resolve 0) ?s
        = WithoutCleanup_run [Render 1, Resolve 0] (WithoutCleanup_init None)"
      "WithCleanup_step (Resolve 0) ?t
        = WithCleanup_run [Render 1, Resolve 0] (WithCleanup_init None)"
    by (simp_all add: WithoutCleanup_run_def WithCleanup_run_def
          del: WithoutCleanup_step.simps WithCleanup_step.simps)
  from C10_loaded_implies_data [of None "[Render 1, Resolve 0]" ?s "Resolve 0" ?t] l n
  show ?thesis unfolding r by blast
qed

end
